theory Spec2Isabelle
  imports Complex_Main "HOL-Library.Log_Nat"
begin

unbundle bit_operations_syntax

section \<open>Python values and errors\<close>

text \<open>
  Python integers are unbounded and are modelled as \<open>int\<close>; \<open>//\<close> and \<open>%\<close> round
  towards minus infinity as \<open>div\<close> and \<open>mod\<close> do, and \<open>&\<close> on integers is the
  two's-complement \<open>AND\<close>.  Every exception the simulator core can raise is a
  constructor of \<open>py_error\<close>, and a function that may raise returns a sum with the
  error on the left.
\<close>

datatype py_error =
  AssertionError | IndexError | ValueError | ZeroDivisionError | OverflowError

definition bind_err :: "py_error + 'a \<Rightarrow> ('a \<Rightarrow> py_error + 'b) \<Rightarrow> py_error + 'b" where
  "bind_err m f = (case m of Inl e \<Rightarrow> Inl e | Inr x \<Rightarrow> f x)"

text \<open>List indexing \<open>xs[i]\<close>: a negative index counts from the end, an index out of
  range raises \<open>IndexError\<close>.  \<open>py_pos\<close> is the position the index denotes.\<close>

definition py_pos :: "'a list \<Rightarrow> int \<Rightarrow> py_error + nat" where
  "py_pos xs i =
     (if 0 \<le> i \<and> i < int (length xs) then Inr (nat i)
      else if i < 0 \<and> - int (length xs) \<le> i then Inr (nat (int (length xs) + i))
      else Inl IndexError)"

section \<open>True division of integers\<close>

text \<open>
  \<open>a / b\<close> on two Python integers is a float: the IEEE 754 double nearest to the
  exact quotient, ties going to the even significand.  It raises
  \<open>ZeroDivisionError\<close> when \<open>b\<close> is zero and \<open>OverflowError\<close> when the rounded
  quotient is beyond the largest double.  A float is modelled by its value, a real
  number.

  \<open>float_exp a b\<close> is the binary exponent of the quotient of two positive integers,
  \<open>\<lfloor>log\<^sub>2 (a / b)\<rfloor>\<close>, found from the bit lengths.  A double has a
  significand of 53 bits, so the quotient is rounded to a multiple of
  \<open>2 powi (e - 52)\<close>, where the exponent \<open>e\<close> is not taken below \<open>-1022\<close>
  (subnormal numbers share the spacing \<open>2 powi (-1074)\<close>).
\<close>

definition round_half_even :: "real \<Rightarrow> int" where
  "round_half_even x =
     (let f = \<lfloor>x\<rfloor>; d = x - real_of_int f in
      if d < 1 / 2 then f else if 1 / 2 < d then f + 1 else if even f then f else f + 1)"

definition float_exp :: "int \<Rightarrow> int \<Rightarrow> int" where
  "float_exp a b =
     (let d = bitlen a - bitlen b in
      if real_of_int b * 2 powi d \<le> real_of_int a then d else d - 1)"

definition round_double :: "int \<Rightarrow> int \<Rightarrow> real" where
  "round_double a b =
     (let e = max (float_exp a b) (- 1022); u = 2 powi (e - 52) in
      real_of_int (round_half_even (real_of_int a / (real_of_int b * u))) * u)"

definition py_truediv :: "int \<Rightarrow> int \<Rightarrow> py_error + real" where
  "py_truediv a b =
     (if b = 0 then Inl ZeroDivisionError
      else if a = 0 then Inr 0
      else let v = round_double \<bar>a\<bar> \<bar>b\<bar> in
        if 2 powi 1024 \<le> v then Inl OverflowError
        else Inr (if (a < 0) = (b < 0) then v else - v))"

section \<open>The deque operations used by the TLB\<close>

text \<open>
  A \<open>collections.deque\<close> is a list whose head is the left end.  \<open>appendleft\<close> is
  \<open>Cons\<close>; \<open>pop\<close> removes the right end and raises \<open>IndexError\<close> on an empty
  deque; \<open>remove\<close> deletes the first occurrence and raises \<open>ValueError\<close> when
  there is none.
\<close>

definition deque_appendleft :: "int list \<Rightarrow> int \<Rightarrow> int list" where
  "deque_appendleft d x = x # d"

definition deque_pop :: "int list \<Rightarrow> py_error + int list" where
  "deque_pop d = (if d = [] then Inl IndexError else Inr (butlast d))"

fun deque_remove :: "int list \<Rightarrow> int \<Rightarrow> py_error + int list" where
  "deque_remove [] v = Inl ValueError"
| "deque_remove (x # xs) v =
     (if x = v then Inr xs
      else bind_err (deque_remove xs v) (\<lambda>ys. Inr (x # ys)))"

section \<open>SetAssociativeTLB\<close>

record tlb =
  sets :: int
  ways :: int
  buckets :: "int list list"
  mask_tlb :: int

text \<open>\<open>__init__\<close>: two assertions, the second after the buckets and the mask are
  built.\<close>

definition init_tlb :: "int \<Rightarrow> int \<Rightarrow> py_error + tlb" where
  "init_tlb s w =
     (if \<not> (s > 0 \<and> w > 0) then Inl AssertionError
      else let m = s - 1 in
        if (s AND m) \<noteq> 0 then Inl AssertionError
        else Inr \<lparr>sets = s, ways = w, buckets = replicate (nat s) [], mask_tlb = m\<rparr>)"

definition index_tlb :: "tlb \<Rightarrow> int \<Rightarrow> int" where
  "index_tlb t vpn = vpn AND mask_tlb t"

text \<open>The \<open>for tag in bucket\<close> loop of \<open>access\<close>: the first tag equal to \<open>vpn\<close>,
  if any.\<close>

fun find_tag :: "int list \<Rightarrow> int \<Rightarrow> int option" where
  "find_tag [] vpn = None"
| "find_tag (tag # rest) vpn = (if tag = vpn then Some tag else find_tag rest vpn)"

text \<open>\<open>access\<close> mutates the deque stored at \<open>buckets[idx]\<close> in place; the model
  returns the hit flag and the TLB with that one bucket replaced.\<close>

definition access :: "tlb \<Rightarrow> int \<Rightarrow> py_error + (bool \<times> tlb)" where
  "access t vpn =
     (let idx = index_tlb t vpn in
      bind_err (py_pos (buckets t) idx) (\<lambda>j.
        let bucket = buckets t ! j in
        case find_tag bucket vpn of
          Some tag \<Rightarrow>
            bind_err (deque_remove bucket tag) (\<lambda>b1.
              Inr (True, t\<lparr>buckets := (buckets t)[j := deque_appendleft b1 tag]\<rparr>))
        | None \<Rightarrow>
            bind_err (if int (length bucket) \<ge> ways t then deque_pop bucket else Inr bucket)
              (\<lambda>b1. Inr (False, t\<lparr>buckets := (buckets t)[j := deque_appendleft b1 vpn]\<rparr>))))"

text \<open>A sequence of \<open>access\<close> calls on one TLB, collecting the returned flags.\<close>

fun access_seq :: "tlb \<Rightarrow> int list \<Rightarrow> py_error + (bool list \<times> tlb)" where
  "access_seq t [] = Inr ([], t)"
| "access_seq t (vpn # rest) =
     bind_err (access t vpn) (\<lambda>(hit, t1).
       bind_err (access_seq t1 rest) (\<lambda>(hs, t2). Inr (hit # hs, t2)))"

section \<open>The pseudo-random generator\<close>

text \<open>
  \<open>generate_trace\<close> draws from the interpreter's module-level generator of the
  \<open>random\<close> library.  The library is not part of the program, so it is a parameter
  of the model: a state type \<open>'g\<close> with the three primitives every drawing function of
  the library is built from.  \<open>rng_seed\<close> is \<open>random.seed\<close> on an integer, which
  replaces the whole state; \<open>rng_random\<close> is \<open>random.random\<close> (the value of the
  returned float, as a real number); \<open>rng_randbelow n\<close> is the library's draw of an
  integer below a positive \<open>n\<close>.
\<close>

record 'g rng =
  rng_seed :: "int \<Rightarrow> 'g"
  rng_random :: "'g \<Rightarrow> real \<times> 'g"
  rng_randbelow :: "int \<Rightarrow> 'g \<Rightarrow> int \<times> 'g"

text \<open>\<open>random.randrange(n)\<close> raises \<open>ValueError\<close> on an empty range;
  \<open>random.randint(a, b)\<close> is \<open>randrange(a, b + 1)\<close>, that is \<open>a\<close> plus a draw
  below the width \<open>b + 1 - a\<close>.\<close>

definition randrange :: "'g rng \<Rightarrow> int \<Rightarrow> 'g \<Rightarrow> py_error + (int \<times> 'g)" where
  "randrange R n g = (if n \<le> 0 then Inl ValueError else Inr (rng_randbelow R n g))"

definition randint :: "'g rng \<Rightarrow> int \<Rightarrow> int \<Rightarrow> 'g \<Rightarrow> py_error + (int \<times> 'g)" where
  "randint R a b g =
     (let width = b + 1 - a in
      if width \<le> 0 then Inl ValueError
      else (case rng_randbelow R width g of (r, g1) \<Rightarrow> Inr (a + r, g1)))"

text \<open>What the library promises of its draws: a fraction in \<open>[0, 1)\<close> and an integer
  in \<open>[0, n)\<close>.\<close>

definition rng_ok :: "'g rng \<Rightarrow> bool" where
  "rng_ok R \<longleftrightarrow>
     (\<forall>g. 0 \<le> fst (rng_random R g) \<and> fst (rng_random R g) < 1) \<and>
     (\<forall>n g. 0 < n \<longrightarrow> 0 \<le> fst (rng_randbelow R n g) \<and> fst (rng_randbelow R n g) < n)"

text \<open>A small generator on which the model can be run: the state is a counter, the
  fraction is a quarter of the counter modulo \<open>4\<close>, and a draw below \<open>n\<close> is the
  counter modulo \<open>n\<close>.\<close>

definition counter_rng :: "int rng" where
  "counter_rng =
     \<lparr>rng_seed = (\<lambda>s. s),
      rng_random = (\<lambda>g. (real_of_int (g mod 4) / 4, g + 1)),
      rng_randbelow = (\<lambda>n g. (g mod n, g + 1))\<rparr>"

section \<open>generate_trace\<close>

text \<open>One iteration of the loop of \<open>generate_trace\<close>: from the locality centre
  \<open>current\<close> and the generator state to the emitted reference \<open>(vpn, offset)\<close>, the
  centre and the state after it.\<close>

definition trace_body ::
  "'g rng \<Rightarrow> int \<Rightarrow> int \<Rightarrow> real \<Rightarrow> int \<Rightarrow> int \<Rightarrow> 'g \<Rightarrow> py_error + ((int \<times> int) \<times> int \<times> 'g)" where
  "trace_body R vpages page_size locality_prob locality_window current g =
     (case rng_random R g of (fraction, g1) \<Rightarrow>
        bind_err
          (if fraction < locality_prob then
             bind_err (randint R ((- locality_window) div 2) (locality_window div 2) g1)
               (\<lambda>(delta, g2). Inr ((current + delta) mod vpages, current, g2))
           else
             bind_err (randrange R vpages g1) (\<lambda>(vpn, g2). Inr (vpn, vpn, g2)))
          (\<lambda>(vpn, current1, g2).
             bind_err (randrange R page_size g2)
               (\<lambda>(offset, g3). Inr ((vpn, offset), current1, g3))))"

text \<open>The loop \<open>for _ in range(n_accesses)\<close>, with the number of iterations left as
  the recursion argument.\<close>

fun trace_loop ::
  "'g rng \<Rightarrow> int \<Rightarrow> int \<Rightarrow> real \<Rightarrow> int \<Rightarrow> nat \<Rightarrow> int \<Rightarrow> 'g \<Rightarrow> (int \<times> int) list
     \<Rightarrow> py_error + ((int \<times> int) list \<times> 'g)" where
  "trace_loop R vpages page_size locality_prob locality_window 0 current g refs = Inr (refs, g)"
| "trace_loop R vpages page_size locality_prob locality_window (Suc k) current g refs =
     bind_err (trace_body R vpages page_size locality_prob locality_window current g)
       (\<lambda>(ref, current1, g1).
          trace_loop R vpages page_size locality_prob locality_window k current1 g1 (refs @ [ref]))"

text \<open>\<open>generate_trace\<close> takes the generator state it finds (\<open>g0\<close>) and returns the
  trace with the state it leaves.\<close>

definition generate_trace ::
  "'g rng \<Rightarrow> 'g \<Rightarrow> int \<Rightarrow> int \<Rightarrow> int \<Rightarrow> real \<Rightarrow> int \<Rightarrow> int \<Rightarrow> py_error + ((int \<times> int) list \<times> 'g)" where
  "generate_trace R g0 n_accesses vpages page_size locality_prob locality_window seed =
     (let g = rng_seed R seed in
      bind_err (randrange R vpages g) (\<lambda>(current, g1).
        trace_loop R vpages page_size locality_prob locality_window (nat n_accesses) current g1 []))"

section \<open>run_tlb_sim\<close>

record sim_params =
  p_sets :: int
  p_ways :: int
  p_vpages :: int
  p_page_size :: int
  p_n_accesses :: int
  p_locality_prob :: real
  p_locality_window :: int
  p_t_tlb :: int
  p_t_mem :: int
  p_t_pagewalk :: int
  p_seed :: int

text \<open>The returned dictionary.  \<open>hit_rate\<close> and \<open>EMAT\<close> are floats, each the result
  of a true division of two integers.\<close>

record result =
  accesses :: int
  hits :: int
  misses :: int
  hit_rate :: real
  EMAT :: real
  params :: sim_params

text \<open>What is written to the terminal: a progress line is determined by the number
  of filled cells of the bar and the percentage; the final \<open>print()\<close> is a newline.
  The code computes both numbers as \<open>int(x / y)\<close>, a true division cut to an integer;
  the quotients are not negative, and the cut float equals the integer quotient as long
  as the trace has fewer than \<open>2 ^ 46\<close> references, which is what the model writes.\<close>

datatype out_event = Progress int int | Newline

definition progress_line :: "int \<Rightarrow> int \<Rightarrow> out_event" where
  "progress_line i n =
     (let pct = (i * 100) div n; bar_len = 40; filled = (bar_len * pct) div 100
      in Progress filled pct)"

text \<open>The loop over \<open>enumerate(trace, start=1)\<close>; the state is the TLB, \<open>hits\<close>,
  \<open>total_time\<close> and the terminal output so far.\<close>

fun sim_loop ::
  "sim_params \<Rightarrow> bool \<Rightarrow> int \<Rightarrow> int \<Rightarrow> int \<Rightarrow> (int \<times> int) list
     \<Rightarrow> tlb \<times> int \<times> int \<times> out_event list
     \<Rightarrow> py_error + (tlb \<times> int \<times> int \<times> out_event list)" where
  "sim_loop p show_progress n step i [] st = Inr st"
| "sim_loop p show_progress n step i ((vpn, off) # rest) (t, h, total_time, out) =
     bind_err (access t vpn) (\<lambda>(hit, t1).
       let h1 = (if hit then h + 1 else h);
           total1 = (if hit then total_time + (p_t_tlb p + p_t_mem p)
                     else total_time + (p_t_tlb p + p_t_pagewalk p + p_t_mem p));
           out1 = (if show_progress \<and> (i mod step = 0 \<or> i = n)
                   then out @ [progress_line i n] else out)
       in sim_loop p show_progress n step (i + 1) rest (t1, h1, total1, out1))"

definition run_tlb_sim ::
  "'g rng \<Rightarrow> 'g \<Rightarrow> sim_params \<Rightarrow> bool \<Rightarrow> py_error + (result \<times> out_event list \<times> 'g)" where
  "run_tlb_sim R g0 p show_progress =
     bind_err (init_tlb (p_sets p) (p_ways p)) (\<lambda>t.
     bind_err (generate_trace R g0 (p_n_accesses p) (p_vpages p) (p_page_size p)
                 (p_locality_prob p) (p_locality_window p) (p_seed p)) (\<lambda>(trace, g1).
       let n = int (length trace); step = max 1 (n div 50) in
       bind_err (sim_loop p show_progress n step 1 trace (t, 0, 0, [])) (\<lambda>(t1, h, total_time, out).
         let out1 = (if show_progress then out @ [Newline] else out) in
         bind_err (py_truediv h n) (\<lambda>hr.
         bind_err (py_truediv total_time n) (\<lambda>emat.
           Inr (\<lparr>accesses = n, hits = h, misses = n - h, hit_rate = hr, EMAT = emat,
                 params = p\<rparr>, out1, g1))))))"

text \<open>\<open>is_power_of_two\<close>, the check the menu runs before it stores \<open>sets\<close>.\<close>

definition is_power_of_two :: "int \<Rightarrow> bool" where
  "is_power_of_two x \<longleftrightarrow> x > 0 \<and> (x AND (x - 1)) = 0"

section \<open>Predicates of the proofs\<close>

text \<open>The state every constructed TLB is in, before and after any number of
  accesses: positive geometry, the mask of the constructor, one bucket per set, and in
  each bucket at most \<open>ways\<close> entries without repetition.\<close>

definition tlb_inv :: "tlb \<Rightarrow> bool" where
  "tlb_inv t \<longleftrightarrow>
     0 < sets t \<and> 0 < ways t \<and> mask_tlb t = sets t - 1 \<and>
     length (buckets t) = nat (sets t) \<and>
     list_all (\<lambda>b. int (length b) \<le> ways t \<and> distinct b) (buckets t)"

text \<open>A small configuration on which the driver is run in the examples.\<close>

definition sample_params :: sim_params where
  "sample_params = \<lparr>p_sets = 1, p_ways = 1, p_vpages = 8, p_page_size = 16, p_n_accesses = 6,
     p_locality_prob = 1 / 2, p_locality_window = 1, p_t_tlb = 1, p_t_mem = 100,
     p_t_pagewalk = 300, p_seed = 0\<rparr>"

text \<open>The spacing of the doubles around the quotient of two positive integers.\<close>

definition float_ulp :: "int \<Rightarrow> int \<Rightarrow> real" where
  "float_ulp a b = 2 powi (max (float_exp a b) (- 1022) - 52)"


text \<open>The bucket \<open>access\<close> leaves behind, written with list functions: \<open>v\<close> in
  front of the old bucket without \<open>v\<close>, or without its last entry when it held \<open>w\<close>
  entries and \<open>v\<close> was absent.\<close>

definition lru_new :: "int \<Rightarrow> int \<Rightarrow> int list \<Rightarrow> int list" where
  "lru_new w v b = v # (if v \<in> set b then remove1 v b
              else if int (length b) = w then butlast b else b)"

text \<open>The inclusion of LRU: two TLBs with the same sets, where every bucket of the one
  with fewer ways is the front part of the corresponding bucket of the other.\<close>

definition lru_incl :: "tlb \<Rightarrow> tlb \<Rightarrow> bool" where
  "lru_incl t1 t2 \<longleftrightarrow>
     sets t1 = sets t2 \<and> ways t1 \<le> ways t2 \<and>
     buckets t1 = map (take (nat (ways t1))) (buckets t2)"


section \<open>Construction\<close>

lemma pow2_and_pred: "(2::int) ^ k AND (2 ^ k - 1) = 0"
  by (rule bit_eqI) (auto simp: bit_simps simp flip: mask_eq_exp_minus_1)

lemma and_pred_pow2: "0 < (s::int) \<Longrightarrow> s AND (s - 1) = 0 \<Longrightarrow> \<exists>k. s = 2 ^ k"
proof (induction "nat s" arbitrary: s rule: less_induct)
  case less
  show ?case
  proof (cases "even s")
    case True
    then obtain m where m: "s = 2 * m" by (elim evenE)
    with less.prems have mpos: "0 < m" by simp
    have half: "(s - 1) div 2 = m - 1" using m by simp
    have "s AND (s - 1) = 2 * (m AND (m - 1))"
      using m half by (subst and_int_rec) simp
    with less.prems have "m AND (m - 1) = 0" by simp
    moreover have "nat m < nat s" using m mpos by simp
    ultimately obtain k where "m = 2 ^ k" using less.hyps mpos by blast
    then have "s = 2 ^ (Suc k)" using m by simp
    then show ?thesis by blast
  next
    case False
    then obtain m where m: "s = 2 * m + 1" by (elim oddE)
    have "s AND (s - 1) = 2 * (m AND m)"
      using m by (subst and_int_rec) simp
    with less.prems have "m = 0" by simp
    then have "s = 2 ^ 0" using m by simp
    then show ?thesis by blast
  qed
qed

lemma power_of_two_iff: "0 < (s::int) \<Longrightarrow> s AND (s - 1) = 0 \<longleftrightarrow> (\<exists>k. s = 2 ^ k)"
  using and_pred_pow2 pow2_and_pred by blast

lemma is_power_of_two_iff: "is_power_of_two x \<longleftrightarrow> (\<exists>k. x = 2 ^ k)"
proof (cases "0 < x")
  case True
  then show ?thesis by (simp add: is_power_of_two_def power_of_two_iff)
next
  case False
  have "x \<noteq> 2 ^ k" for k
  proof
    assume "x = 2 ^ k"
    then have "0 < x" by simp
    with False show False by simp
  qed
  with False show ?thesis by (simp add: is_power_of_two_def)
qed

text \<open>
  Claim C4.  Construction succeeds exactly when \<open>sets\<close> is positive and a power of
  two and \<open>ways\<close> is positive, and then yields the TLB with these parameters,
  \<open>sets\<close> empty buckets and the mask \<open>sets - 1\<close>.  In every other case it raises
  the assertion error and returns no TLB: no parameter is clamped or defaulted.
\<close>

theorem init_tlb_config:
  "init_tlb s w =
     (if 0 < s \<and> 0 < w \<and> (\<exists>k. s = 2 ^ k)
      then Inr \<lparr>sets = s, ways = w, buckets = replicate (nat s) [], mask_tlb = s - 1\<rparr>
      else Inl AssertionError)"
proof (cases "0 < s")
  case True
  then show ?thesis
    by (simp add: init_tlb_def Let_def power_of_two_iff [symmetric])
next
  case False
  then show ?thesis by (simp add: init_tlb_def)
qed

section \<open>One access\<close>

lemma find_tag_eq: "find_tag b v = (if v \<in> set b then Some v else None)"
  by (induction b) auto

lemma deque_remove_mem: "v \<in> set b \<Longrightarrow> deque_remove b v = Inr (remove1 v b)"
  by (induction b) (auto simp: bind_err_def)

lemma py_pos_in_range: "0 \<le> i \<Longrightarrow> i < int (length xs) \<Longrightarrow> py_pos xs i = Inr (nat i)"
  by (simp add: py_pos_def)

lemma index_range: "0 \<le> m \<Longrightarrow> 0 \<le> vpn AND m \<and> vpn AND m \<le> (m::int)"
  by (simp add: AND_upper2)

lemma access_eq:
  fixes t :: tlb and vpn :: int
  assumes "tlb_inv t"
  defines "j \<equiv> nat (vpn AND (sets t - 1))"
  defines "b \<equiv> buckets t ! j"
  shows "j < length (buckets t)"
    and "access t vpn = Inr (vpn \<in> set b,
          t\<lparr>buckets := (buckets t)[j := vpn #
             (if vpn \<in> set b then remove1 vpn b
              else if int (length b) = ways t then butlast b else b)]\<rparr>)"
proof -
  from assms(1) have m: "0 \<le> sets t - 1" and len: "length (buckets t) = nat (sets t)"
    and mk: "mask_tlb t = sets t - 1" and w: "0 < ways t" and sp: "0 < sets t"
    by (simp_all add: tlb_inv_def)
  from index_range[OF m, of vpn]
  have r: "0 \<le> vpn AND (sets t - 1)" "vpn AND (sets t - 1) < sets t"
    by simp_all
  from r sp have "nat (vpn AND (sets t - 1)) < nat (sets t)" by linarith
  then show jl: "j < length (buckets t)" by (simp add: j_def len)
  have "py_pos (buckets t) (vpn AND (sets t - 1)) = Inr (nat (vpn AND (sets t - 1)))"
    using r sp
    by (intro py_pos_in_range)
       (simp_all only: len int_nat_eq if_True order.strict_implies_order)
  then have pos: "py_pos (buckets t) (index_tlb t vpn) = Inr j"
    by (simp add: index_tlb_def mk j_def)
  have "b \<in> set (buckets t)" using jl by (simp add: b_def)
  with assms(1) have bl: "int (length b) \<le> ways t"
    by (simp add: tlb_inv_def list_all_iff)
  show "access t vpn = Inr (vpn \<in> set b,
          t\<lparr>buckets := (buckets t)[j := vpn #
             (if vpn \<in> set b then remove1 vpn b
              else if int (length b) = ways t then butlast b else b)]\<rparr>)"
  proof (cases "vpn \<in> set b")
    case True
    then show ?thesis
      by (simp add: access_def pos bind_err_def find_tag_eq deque_remove_mem
          deque_appendleft_def flip: b_def)
  next
    case False
    have ne: "int (length b) = ways t \<Longrightarrow> b \<noteq> []" using w by auto
    from False bl ne show ?thesis
      by (auto simp add: access_def pos bind_err_def find_tag_eq deque_pop_def
          deque_appendleft_def simp flip: b_def)
  qed
qed

lemma init_tlb_inv: "init_tlb s w = Inr t \<Longrightarrow> tlb_inv t \<and> sets t = s \<and> ways t = w"
  by (auto simp: init_tlb_def tlb_inv_def Let_def list_all_iff split: if_splits)

lemma access_preserves:
  assumes "tlb_inv t" "access t vpn = Inr (h, t')"
  shows "tlb_inv t' \<and> sets t' = sets t \<and> ways t' = ways t"
proof -
  define j where "j = nat (vpn AND (sets t - 1))"
  define b where "b = buckets t ! j"
  define b' where "b' = vpn # (if vpn \<in> set b then remove1 vpn b
              else if int (length b) = ways t then butlast b else b)"
  from access_eq[OF assms(1), of vpn] assms(2)
  have jl: "j < length (buckets t)" and t': "t' = t\<lparr>buckets := (buckets t)[j := b']\<rparr>"
    by (simp_all add: j_def b_def b'_def)
  have "b \<in> set (buckets t)" using jl by (simp add: b_def)
  with assms(1) have bl: "int (length b) \<le> ways t" and d: "distinct b"
    by (simp_all add: tlb_inv_def list_all_iff)
  have "int (length b') \<le> ways t \<and> distinct b'"
  proof (cases "vpn \<in> set b")
    case True
    with bl d length_pos_if_in_set[OF True] show ?thesis
      by (auto simp: b'_def length_remove1)
  next
    case False
    from assms(1) have w: "0 < ways t" by (simp add: tlb_inv_def)
    have "int (length b) = ways t \<Longrightarrow> 1 + int (length b - Suc 0) \<le> ways t"
      using w by linarith
    with False bl d show ?thesis
      by (auto simp: b'_def distinct_butlast dest: in_set_butlastD)
  qed
  with assms(1) show ?thesis
    by (auto simp: t' tlb_inv_def list_all_iff dest!: set_update_subset_insert[THEN subsetD])
qed

lemma access_seq_inv:
  "tlb_inv t \<Longrightarrow> \<exists>hs t'. access_seq t vpns = Inr (hs, t') \<and> length hs = length vpns \<and>
      tlb_inv t' \<and> sets t' = sets t \<and> ways t' = ways t"
proof (induction vpns arbitrary: t)
  case Nil
  then show ?case by simp
next
  case (Cons v vs)
  from access_eq(2)[OF Cons.prems, of v] obtain h t1 where a: "access t v = Inr (h, t1)"
    by blast
  from access_preserves[OF Cons.prems a]
  have 1: "tlb_inv t1" "sets t1 = sets t" "ways t1 = ways t"
    by simp_all
  from Cons.IH[OF 1(1)] obtain hs t' where "access_seq t1 vs = Inr (hs, t')"
    "length hs = length vs" "tlb_inv t'" "sets t' = sets t1" "ways t' = ways t1"
    by blast
  with a 1 show ?case by (simp add: bind_err_def)
qed

lemma reachable_inv:
  assumes "init_tlb s w = Inr t0" and "access_seq t0 vpns = Inr (hs, t)"
  shows "tlb_inv t \<and> sets t = s \<and> ways t = w"
  using init_tlb_inv[OF assms(1)] access_seq_inv[of t0 vpns] assms(2) by auto

text \<open>
  Claim C1.  Let \<open>t\<close> be the state of a TLB constructed with parameters \<open>s\<close>,
  \<open>w\<close> after any sequence of accesses, and \<open>b\<close> its bucket at index
  \<open>vpn AND (s - 1)\<close>.  Then \<open>access t vpn\<close> raises nothing, returns \<open>True\<close>
  exactly when \<open>vpn\<close> is in \<open>b\<close>, and changes this bucket only: on a hit \<open>vpn\<close>
  (which occurs once in \<open>b\<close>) is taken out of its position and put at the front; on a
  miss \<open>vpn\<close> is put at the front, after the last entry has been dropped when \<open>b\<close>
  holds \<open>w\<close> entries.  This holds for every integer \<open>vpn\<close>, the non-negative ones
  included.
\<close>

theorem access_hit_miss:
  fixes vpn :: int
  assumes "init_tlb s w = Inr t0" and "access_seq t0 vpns = Inr (hs, t)"
  defines "j \<equiv> nat (vpn AND (s - 1))"
  defines "b \<equiv> buckets t ! j"
  shows "j < length (buckets t) \<and> distinct b \<and>
         access t vpn =
           Inr (vpn \<in> set b,
                t\<lparr>buckets := (buckets t)
                     [j := (if vpn \<in> set b then vpn # remove1 vpn b
                            else if int (length b) = w then vpn # butlast b
                            else vpn # b)]\<rparr>)"
proof -
  from reachable_inv[OF assms(1,2)] have inv: "tlb_inv t" and s: "sets t = s" and w: "ways t = w"
    by simp_all
  from access_eq(1)[OF inv, of vpn] have jl: "j < length (buckets t)"
    by (simp add: j_def s)
  then have "b \<in> set (buckets t)" by (simp add: b_def)
  with inv have "distinct b" by (simp add: tlb_inv_def list_all_iff)
  moreover from access_eq(2)[OF inv, of vpn]
  have "access t vpn =
           Inr (vpn \<in> set b,
                t\<lparr>buckets := (buckets t)
                     [j := (if vpn \<in> set b then vpn # remove1 vpn b
                            else if int (length b) = w then vpn # butlast b
                            else vpn # b)]\<rparr>)"
    by (simp add: j_def b_def s w)
  ultimately show ?thesis using jl by simp
qed

theorem access_hit_miss_witness:
  "init_tlb 2 2 = Inr \<lparr>sets = 2, ways = 2, buckets = [[], []], mask_tlb = 1\<rparr> \<and>
   access_seq \<lparr>sets = 2, ways = 2, buckets = [[], []], mask_tlb = 1\<rparr> [5, 7, 4]
     = Inr ([False, False, False], \<lparr>sets = 2, ways = 2, buckets = [[4], [7, 5]], mask_tlb = 1\<rparr>) \<and>
   access \<lparr>sets = 2, ways = 2, buckets = [[4], [7, 5]], mask_tlb = 1\<rparr> 5
     = Inr (True, \<lparr>sets = 2, ways = 2, buckets = [[4], [5, 7]], mask_tlb = 1\<rparr>) \<and>
   access \<lparr>sets = 2, ways = 2, buckets = [[4], [7, 5]], mask_tlb = 1\<rparr> 9
     = Inr (False, \<lparr>sets = 2, ways = 2, buckets = [[4], [9, 7]], mask_tlb = 1\<rparr>)"
proof -
  have i: "init_tlb 2 2 = Inr \<lparr>sets = 2, ways = 2, buckets = [[], []], mask_tlb = 1\<rparr>"
    by (simp add: init_tlb_def numeral_2_eq_2)
  have a: "access_seq \<lparr>sets = 2, ways = 2, buckets = [[], []], mask_tlb = 1\<rparr> [5, 7, 4]
     = Inr ([False, False, False], \<lparr>sets = 2, ways = 2, buckets = [[4], [7, 5]], mask_tlb = 1\<rparr>)"
    by (simp add: access_def index_tlb_def py_pos_def bind_err_def deque_appendleft_def
        deque_pop_def)
  from access_hit_miss[OF i a, of 5] access_hit_miss[OF i a, of 9] i a
  show ?thesis by simp
qed

text \<open>
  Claim C3.  A TLB with one set and one way, accessed with the VPNs 5, 7, 5, misses
  three times: after the second access the only entry is 7, so 5 is absent when it is
  accessed again.
\<close>

theorem scenario_5_7_5:
  "init_tlb 1 1 = Inr \<lparr>sets = 1, ways = 1, buckets = [[]], mask_tlb = 0\<rparr> \<and>
   access_seq \<lparr>sets = 1, ways = 1, buckets = [[]], mask_tlb = 0\<rparr> [5, 7]
     = Inr ([False, False], \<lparr>sets = 1, ways = 1, buckets = [[7]], mask_tlb = 0\<rparr>) \<and>
   access_seq \<lparr>sets = 1, ways = 1, buckets = [[]], mask_tlb = 0\<rparr> [5, 7, 5]
     = Inr ([False, False, False], \<lparr>sets = 1, ways = 1, buckets = [[5]], mask_tlb = 0\<rparr>)"
  by (simp add: init_tlb_def access_def index_tlb_def py_pos_def bind_err_def
      deque_appendleft_def deque_pop_def)

section \<open>The set invariant\<close>

text \<open>
  Claim C5.  From a TLB constructed with parameters \<open>s\<close>, \<open>w\<close>, every sequence
  of accesses runs to its end without an error, and in the state it reaches there are
  \<open>s\<close> buckets, each with at least 0 and at most \<open>w\<close> entries and with no VPN
  twice.  The empty sequence is the freshly constructed TLB.
\<close>

theorem set_invariant:
  assumes "init_tlb s w = Inr t0"
  shows "\<exists>hs t. access_seq t0 vpns = Inr (hs, t) \<and> length (buckets t) = nat s \<and>
           (\<forall>b \<in> set (buckets t). 0 \<le> length b \<and> int (length b) \<le> w \<and> distinct b)"
proof -
  from init_tlb_inv[OF assms] have inv: "tlb_inv t0" and sw: "sets t0 = s" "ways t0 = w"
    by simp_all
  from access_seq_inv[OF inv, of vpns] obtain hs t where
    "access_seq t0 vpns = Inr (hs, t)" "tlb_inv t" "sets t = sets t0" "ways t = ways t0"
    by blast
  then show ?thesis using sw by (auto simp: tlb_inv_def list_all_iff)
qed

theorem set_invariant_witness:
  "init_tlb 2 2 = Inr \<lparr>sets = 2, ways = 2, buckets = [[], []], mask_tlb = 1\<rparr> \<and>
   (\<exists>hs t. access_seq \<lparr>sets = 2, ways = 2, buckets = [[], []], mask_tlb = 1\<rparr> [5, 7, 4, 9, 5]
        = Inr (hs, t) \<and> length (buckets t) = 2 \<and>
      list_all (\<lambda>b. int (length b) \<le> 2 \<and> distinct b) (buckets t))"
proof -
  have i: "init_tlb 2 2 = Inr \<lparr>sets = 2, ways = 2, buckets = [[], []], mask_tlb = 1\<rparr>"
    by (simp add: init_tlb_def numeral_2_eq_2)
  from set_invariant[OF i, of "[5, 7, 4, 9, 5]"] i
  show ?thesis by (auto simp: list_all_iff)
qed

section \<open>The trace generator\<close>

lemma trace_loop_length:
  "trace_loop R vp ps lp lw k cur g refs = Inr (tr, g') \<Longrightarrow> length tr = length refs + k"
proof (induction k arbitrary: cur g refs)
  case 0
  then show ?case by simp
next
  case (Suc k)
  then show ?case
    by (auto simp: bind_err_def split: sum.splits prod.splits)
qed

lemma generate_trace_length:
  "generate_trace R g0 n vp ps lp lw sd = Inr (tr, g) \<Longrightarrow> length tr = nat n"
  by (auto simp: generate_trace_def bind_err_def Let_def split: sum.splits prod.splits dest: trace_loop_length)

lemma counter_rng_ok: "rng_ok counter_rng"
  by (simp add: rng_ok_def counter_rng_def)

lemma randint_range:
  assumes "rng_ok R" and "randint R a b g = Inr (x, g')"
  shows "a \<le> x \<and> x \<le> b"
proof -
  from assms(2) have w: "0 < b + 1 - a" and x: "x = a + fst (rng_randbelow R (b + 1 - a) g)"
    by (auto simp: randint_def Let_def split: if_splits prod.splits)
  from assms(1) w have "0 \<le> fst (rng_randbelow R (b + 1 - a) g)"
    "fst (rng_randbelow R (b + 1 - a) g) < b + 1 - a"
    by (simp_all add: rng_ok_def)
  then show ?thesis unfolding x by linarith
qed

lemma trace_body_locality:
  assumes ok: "rng_ok R" and frac: "fst (rng_random R g) < lp"
    and body: "trace_body R vp ps lp lw cur g = Inr ((vpn, off), cur', g')"
  shows "cur' = cur \<and>
         (\<exists>delta. (- lw) div 2 \<le> delta \<and> delta \<le> lw div 2 \<and> vpn = (cur + delta) mod vp)"
proof -
  obtain f g1 where rr: "rng_random R g = (f, g1)" by (cases "rng_random R g")
  with frac have f: "f < lp" by simp
  from body rr f obtain delta g2 where
    ri: "randint R ((- lw) div 2) (lw div 2) g1 = Inr (delta, g2)" and
    v: "vpn = (cur + delta) mod vp" and c: "cur' = cur"
    by (auto simp: trace_body_def bind_err_def split: sum.splits prod.splits)
  from randint_range[OF ok ri] v c show ?thesis by blast
qed

lemma trace_body_jump:
  assumes frac: "\<not> fst (rng_random R g) < lp"
    and body: "trace_body R vp ps lp lw cur g = Inr ((vpn, off), cur', g')"
  shows "cur' = vpn"
proof -
  obtain f g1 where rr: "rng_random R g = (f, g1)" by (cases "rng_random R g")
  with frac have f: "\<not> f < lp" by simp
  from body rr f show ?thesis
    by (auto simp: trace_body_def bind_err_def split: sum.splits prod.splits)
qed

lemma sample_trace:
  "generate_trace counter_rng g0 6 8 16 (1 / 2) 1 0
     = Inr ([(7, 3), (0, 6), (0, 9), (3, 12), (2, 15), (3, 2)], 19)"
  by (simp add: generate_trace_def randrange_def randint_def trace_body_def counter_rng_def
      bind_err_def Let_def numeral_nat)

text \<open>
  Claim C2.  The claim fails on the code for an odd window.  The bounds handed to
  \<open>randint\<close> are \<open>(- locality_window) div 2\<close> and \<open>locality_window div 2\<close>; the
  first is the floor of the negated half, so for \<open>locality_window = 1\<close> the range of
  \<open>delta\<close> is \<open>[-1, 0]\<close> and not \<open>[0, 0]\<close>.  Run on the counter generator with
  window 1 and centre 0: the fraction is \<open>1 / 4\<close>, below \<open>locality_prob = 1 / 2\<close>,
  the draw is \<open>delta = -1\<close>, and the emitted VPN is 7 while the centre stays 0.
  (That the centre is kept in this branch, and that \<open>delta\<close> lies between the two
  bounds, is \<open>trace_body_locality\<close>.)
\<close>

theorem window_one_drifts:
  "rng_random counter_rng 1 = (1 / 4, 2) \<and>
   randint counter_rng ((- 1) div 2) (1 div 2) 2 = Inr (- 1, 3) \<and>
   trace_body counter_rng 8 16 (1 / 2) 1 0 1 = Inr ((7, 3), 0, 4) \<and>
   generate_trace counter_rng g0 6 8 16 (1 / 2) 1 0
     = Inr ([(7, 3), (0, 6), (0, 9), (3, 12), (2, 15), (3, 2)], 19)"
  by (simp add: sample_trace)
     (simp add: randrange_def randint_def trace_body_def counter_rng_def bind_err_def Let_def)

lemma randrange_returns: "0 < n \<Longrightarrow> \<exists>x g'. randrange R n g = Inr (x, g')"
  by (cases "rng_randbelow R n g") (simp add: randrange_def)

lemma randint_returns: "a \<le> b \<Longrightarrow> \<exists>x g'. randint R a b g = Inr (x, g')"
  by (cases "rng_randbelow R (b + 1 - a) g") (simp add: randint_def Let_def)

lemma trace_body_returns:
  assumes "0 < vp" "0 < ps" "0 \<le> lw"
  shows "\<exists>x. trace_body R vp ps lp lw cur g = Inr x"
proof -
  obtain f g1 where rr: "rng_random R g = (f, g1)" by (cases "rng_random R g")
  have w: "(- lw) div 2 \<le> lw div 2" using assms(3) by linarith
  have "\<exists>vpn c g2. (if f < lp then
             bind_err (randint R ((- lw) div 2) (lw div 2) g1)
               (\<lambda>(delta, g2). Inr ((cur + delta) mod vp, cur, g2))
           else
             bind_err (randrange R vp g1) (\<lambda>(vpn, g2). Inr (vpn, vpn, g2))) = Inr (vpn, c, g2)"
  proof (cases "f < lp")
    case True
    from randint_returns[OF w, of R g1] obtain d g2 where
      "randint R ((- lw) div 2) (lw div 2) g1 = Inr (d, g2)" by blast
    with True show ?thesis by (simp add: bind_err_def)
  next
    case False
    from randrange_returns[OF assms(1), of R g1] obtain v g2 where
      "randrange R vp g1 = Inr (v, g2)" by blast
    with False show ?thesis by (simp add: bind_err_def)
  qed
  then obtain vpn c g2 where 1: "(if f < lp then
             bind_err (randint R ((- lw) div 2) (lw div 2) g1)
               (\<lambda>(delta, g2). Inr ((cur + delta) mod vp, cur, g2))
           else
             bind_err (randrange R vp g1) (\<lambda>(vpn, g2). Inr (vpn, vpn, g2))) = Inr (vpn, c, g2)"
    by blast
  from randrange_returns[OF assms(2), of R g2] obtain off g3 where
    2: "randrange R ps g2 = Inr (off, g3)" by blast
  show ?thesis
    unfolding trace_body_def rr prod.case 1 by (simp add: bind_err_def 2)
qed

lemma trace_loop_returns:
  assumes "0 < vp" "0 < ps" "0 \<le> lw"
  shows "\<exists>tr g'. trace_loop R vp ps lp lw k cur g refs = Inr (tr, g')"
proof (induction k arbitrary: cur g refs)
  case 0
  show ?case by simp
next
  case (Suc k)
  from trace_body_returns[OF assms, of R lp cur g]
  obtain x where "trace_body R vp ps lp lw cur g = Inr x" by blast
  then show ?case using Suc.IH by (cases x) (auto simp: bind_err_def)
qed

section \<open>Rounding to a double\<close>

lemma rhe_ge_floor: "\<lfloor>x\<rfloor> \<le> round_half_even x"
  by (simp add: round_half_even_def Let_def)

lemma rhe_le_ceiling: "round_half_even x \<le> \<lceil>x\<rceil>"
proof (cases "x = real_of_int \<lfloor>x\<rfloor>")
  case True
  then have "round_half_even x = \<lfloor>x\<rfloor>" by (simp add: round_half_even_def Let_def)
  then show ?thesis by (simp add: floor_le_ceiling)
next
  case False
  then have "\<lceil>x\<rceil> = \<lfloor>x\<rfloor> + 1" by (simp add: ceiling_altdef)
  then show ?thesis by (simp add: round_half_even_def Let_def)
qed

lemma int_le_rhe:
  assumes "real_of_int k \<le> x"
  shows "k \<le> round_half_even x"
proof -
  from assms have "k \<le> \<lfloor>x\<rfloor>" by (simp add: le_floor_iff)
  with rhe_ge_floor[of x] show ?thesis by linarith
qed

lemma rhe_le_int:
  assumes "x \<le> real_of_int k"
  shows "round_half_even x \<le> k"
proof -
  from assms have "\<lceil>x\<rceil> \<le> k" by (simp add: ceiling_le_iff)
  with rhe_le_ceiling[of x] show ?thesis by linarith
qed

lemma rhe_mono: "x \<le> y \<Longrightarrow> round_half_even x \<le> round_half_even y"
proof -
  assume xy: "x \<le> y"
  then have fl: "\<lfloor>x\<rfloor> \<le> \<lfloor>y\<rfloor>" by (rule floor_mono)
  show ?thesis
  proof (cases "\<lfloor>x\<rfloor> = \<lfloor>y\<rfloor>")
    case True
    with xy show ?thesis by (auto simp: round_half_even_def Let_def)
  next
    case False
    with fl have "\<lfloor>x\<rfloor> + 1 \<le> \<lfloor>y\<rfloor>" by simp
    moreover have "round_half_even x \<le> \<lfloor>x\<rfloor> + 1" by (simp add: round_half_even_def Let_def)
    ultimately show ?thesis using rhe_ge_floor[of y] by linarith
  qed
qed

lemma float_exp_bounds:
  assumes a: "0 < a" and b: "0 < b"
  shows "2 powi float_exp a b \<le> real_of_int a / real_of_int b"
    and "real_of_int a / real_of_int b < 2 powi (float_exp a b + 1)"
proof -
  define la where "la = bitlen a"
  define lb where "lb = bitlen b"
  define d where "d = la - lb"
  have la1: "1 \<le> la" and lb1: "1 \<le> lb" using a b by (simp_all add: la_def lb_def bitlen_alt_def)
  from bitlen_bounds[OF a] have "real_of_int (2 ^ nat (la - 1)) \<le> real_of_int a"
    "real_of_int a < real_of_int (2 ^ nat la)"
    unfolding la_def by (simp_all only: of_int_le_iff of_int_less_iff)
  then have A: "2 powi (la - 1) \<le> real_of_int a" "real_of_int a < 2 powi la"
    using la1 by (simp_all add: power_int_def)
  from bitlen_bounds[OF b] have "real_of_int (2 ^ nat (lb - 1)) \<le> real_of_int b"
    "real_of_int b < real_of_int (2 ^ nat lb)"
    unfolding lb_def by (simp_all only: of_int_le_iff of_int_less_iff)
  then have B: "2 powi (lb - 1) \<le> real_of_int b" "real_of_int b < 2 powi lb"
    using lb1 by (simp_all add: power_int_def)
  have rb: "0 < real_of_int b" using b by simp
  have ra: "0 < real_of_int a" using a by simp
  have up: "real_of_int a < real_of_int b * 2 powi (d + 1)"
  proof -
    have "real_of_int a < 2 powi (lb - 1) * 2 powi (d + 1)"
      using A(2) by (simp add: d_def flip: power_int_add)
    also have "\<dots> \<le> real_of_int b * 2 powi (d + 1)"
      using B(1) by (simp add: mult_right_mono)
    finally show ?thesis .
  qed
  have lo: "real_of_int b * 2 powi (d - 1) \<le> real_of_int a"
  proof -
    have "real_of_int b * 2 powi (d - 1) \<le> 2 powi lb * 2 powi (d - 1)"
      using B(2) by (simp add: mult_right_mono)
    also have "\<dots> = 2 powi (la - 1)" by (simp add: d_def flip: power_int_add)
    finally show ?thesis using A(1) by simp
  qed
  have e: "float_exp a b = (if real_of_int b * 2 powi d \<le> real_of_int a then d else d - 1)"
    by (simp add: float_exp_def Let_def d_def la_def lb_def)
  show "2 powi float_exp a b \<le> real_of_int a / real_of_int b"
    using lo rb by (auto simp: e pos_le_divide_eq mult.commute)
  show "real_of_int a / real_of_int b < 2 powi (float_exp a b + 1)"
    using up rb by (auto simp: e pos_divide_less_eq mult.commute)
qed

lemma float_ulp_pos: "0 < float_ulp a b"
  by (simp add: float_ulp_def)

lemma round_double_ulp:
  "round_double a b
     = real_of_int (round_half_even (real_of_int a / real_of_int b / float_ulp a b)) * float_ulp a b"
  by (simp add: round_double_def float_ulp_def Let_def divide_divide_eq_left)

lemma round_double_nonneg:
  assumes "0 < a" "0 < b"
  shows "0 \<le> round_double a b"
proof -
  have "real_of_int 0 \<le> real_of_int a / real_of_int b / float_ulp a b"
    using assms float_ulp_pos[of a b] by simp
  then have "0 \<le> round_half_even (real_of_int a / real_of_int b / float_ulp a b)"
    by (rule int_le_rhe)
  then show ?thesis
    unfolding round_double_ulp using float_ulp_pos[of a b] by simp
qed

lemma round_double_lower:
  assumes a: "0 < a" and b: "0 < b" and e: "- 1022 \<le> float_exp a b"
  shows "2 powi float_exp a b \<le> round_double a b"
proof -
  define u where "u = float_ulp a b"
  have u: "u = 2 powi (float_exp a b - 52)" using e by (simp add: u_def float_ulp_def max_def)
  have upos: "0 < u" by (simp add: u_def float_ulp_pos)
  have split: "2 powi float_exp a b = 2 ^ 52 * u"
    unfolding u by (simp add: power_int_diff)
  define q where "q = real_of_int a / real_of_int b"
  have "2 ^ 52 * u \<le> q"
    using float_exp_bounds(1)[OF a b] by (simp add: split q_def)
  then have "real_of_int (2 ^ 52) \<le> q / u"
    using upos by (simp add: pos_le_divide_eq)
  then have "2 ^ 52 \<le> round_half_even (q / u)"
    by (rule int_le_rhe)
  then have "real_of_int (2 ^ 52) \<le> real_of_int (round_half_even (q / u))"
    by (simp only: of_int_le_iff)
  then have "2 ^ 52 * u \<le> real_of_int (round_half_even (q / u)) * u"
    using upos by (simp add: mult_right_mono)
  then show ?thesis by (simp add: split round_double_ulp u_def q_def)
qed

lemma round_double_upper:
  assumes a: "0 < a" and b: "0 < b"
  shows "round_double a b \<le> 2 powi (max (float_exp a b) (- 1022) + 1)"
proof -
  define e' where "e' = max (float_exp a b) (- 1022)"
  define u where "u = float_ulp a b"
  have u: "u = 2 powi (e' - 52)" by (simp add: u_def float_ulp_def e'_def)
  have upos: "0 < u" by (simp add: u_def float_ulp_pos)
  have split: "2 powi (e' + 1) = 2 ^ 53 * u"
  proof -
    have "e' + 1 = 53 + (e' - 52)" by simp
    then have "(2::real) powi (e' + 1) = 2 powi (53 + (e' - 52))" by (simp only:)
    also have "\<dots> = 2 powi 53 * 2 powi (e' - 52)" by (rule power_int_add) simp
    finally show ?thesis by (simp add: u)
  qed
  define q where "q = real_of_int a / real_of_int b"
  have "real_of_int a / real_of_int b < 2 powi (float_exp a b + 1)"
    by (rule float_exp_bounds(2)[OF a b])
  also have "\<dots> \<le> 2 powi (e' + 1)"
    by (rule power_int_increasing) (simp_all add: e'_def)
  finally have "q \<le> 2 ^ 53 * u" by (simp add: split q_def)
  then have "q / u \<le> real_of_int (2 ^ 53)"
    using upos by (simp add: pos_divide_le_eq)
  then have "round_half_even (q / u) \<le> 2 ^ 53"
    by (rule rhe_le_int)
  then have "real_of_int (round_half_even (q / u)) \<le> real_of_int (2 ^ 53)"
    by (simp only: of_int_le_iff)
  then have "real_of_int (round_half_even (q / u)) * u \<le> 2 ^ 53 * u"
    using upos by (simp add: mult_right_mono)
  moreover have "round_double a b = real_of_int (round_half_even (q / u)) * u"
    by (simp add: round_double_ulp u_def q_def)
  ultimately have "round_double a b \<le> 2 powi (e' + 1)"
    by (simp only: split)
  then show ?thesis by (simp only: e'_def)
qed

lemma float_exp_mono:
  assumes "0 < a1" "a1 \<le> a2" "0 < b"
  shows "float_exp a1 b \<le> float_exp a2 b"
proof -
  have a2: "0 < a2" using assms by simp
  have "2 powi float_exp a1 b \<le> real_of_int a1 / real_of_int b"
    by (rule float_exp_bounds(1)[OF assms(1,3)])
  also have "\<dots> \<le> real_of_int a2 / real_of_int b"
    using assms by (simp add: divide_right_mono)
  also have "\<dots> < 2 powi (float_exp a2 b + 1)"
    by (rule float_exp_bounds(2)[OF a2 assms(3)])
  finally have lt: "(2::real) powi float_exp a1 b < 2 powi (float_exp a2 b + 1)" .
  have "float_exp a1 b < float_exp a2 b + 1"
  proof (rule ccontr)
    assume "\<not> float_exp a1 b < float_exp a2 b + 1"
    then have "float_exp a2 b + 1 \<le> float_exp a1 b" by simp
    then have "(2::real) powi (float_exp a2 b + 1) \<le> 2 powi float_exp a1 b"
      by (rule power_int_increasing) simp
    with lt show False by simp
  qed
  then show ?thesis by simp
qed

lemma round_double_mono:
  assumes a1: "0 < a1" and le: "a1 \<le> a2" and b: "0 < b"
  shows "round_double a1 b \<le> round_double a2 b"
proof -
  have a2: "0 < a2" using a1 le by simp
  define e1 where "e1 = max (float_exp a1 b) (- 1022)"
  define e2 where "e2 = max (float_exp a2 b) (- 1022)"
  have e12: "e1 \<le> e2" using float_exp_mono[OF a1 le b] by (simp add: e1_def e2_def)
  show ?thesis
  proof (cases "e1 = e2")
    case True
    then have u: "float_ulp a1 b = float_ulp a2 b" by (simp add: float_ulp_def e1_def e2_def)
    have "real_of_int a1 / real_of_int b / float_ulp a2 b
            \<le> real_of_int a2 / real_of_int b / float_ulp a2 b"
      using le b float_ulp_pos[of a2 b] by (simp add: divide_right_mono)
    then have "round_half_even (real_of_int a1 / real_of_int b / float_ulp a2 b)
            \<le> round_half_even (real_of_int a2 / real_of_int b / float_ulp a2 b)"
      by (rule rhe_mono)
    then show ?thesis
      unfolding round_double_ulp u using float_ulp_pos[of a2 b] by (simp add: mult_right_mono)
  next
    case False
    with e12 have lt: "e1 + 1 \<le> e2" by simp
    then have big: "- 1022 \<le> float_exp a2 b" and e2: "e2 = float_exp a2 b"
      by (auto simp: e1_def e2_def max_def split: if_splits)
    have "round_double a1 b \<le> 2 powi (e1 + 1)"
      using round_double_upper[OF a1 b] by (simp add: e1_def)
    also have "\<dots> \<le> 2 powi e2"
      using lt by (intro power_int_increasing) simp_all
    also have "\<dots> \<le> round_double a2 b"
      unfolding e2 by (rule round_double_lower[OF a2 b big])
    finally show ?thesis .
  qed
qed

lemma round_double_mult_ulp_le:
  assumes "real_of_int a / real_of_int b \<le> real_of_int j * float_ulp a b"
  shows "round_double a b \<le> real_of_int j * float_ulp a b"
proof -
  define q where "q = real_of_int a / real_of_int b"
  define u where "u = float_ulp a b"
  have upos: "0 < u" by (simp add: u_def float_ulp_pos)
  from assms have "q \<le> real_of_int j * u" by (simp add: q_def u_def)
  then have "q / u \<le> real_of_int j" using upos by (simp add: pos_divide_le_eq)
  then have "round_half_even (q / u) \<le> j" by (rule rhe_le_int)
  then have "real_of_int (round_half_even (q / u)) \<le> real_of_int j" by (simp only: of_int_le_iff)
  then have "real_of_int (round_half_even (q / u)) * u \<le> real_of_int j * u"
    using upos by (simp add: mult_right_mono)
  then show ?thesis by (simp add: round_double_ulp q_def u_def)
qed


text \<open>When the unit in the last place is at most 1, every integer is a multiple of it.\<close>

lemma int_multiple_of_ulp:
  assumes "max (float_exp a b) (- 1022) \<le> 52"
  shows "\<exists>j. real_of_int k = real_of_int j * float_ulp a b"
proof -
  define N where "N = nat (52 - max (float_exp a b) (- 1022))"
  have "max (float_exp a b) (- 1022) - 52 = - int N" using assms by (simp add: N_def)
  then have u: "float_ulp a b = inverse (2 ^ N)"
    by (simp add: float_ulp_def power_int_minus)
  have "real_of_int k = real_of_int (k * 2 ^ N) * float_ulp a b"
    by (simp add: u)
  then show ?thesis by blast
qed


lemma round_double_int_upper:
  assumes a: "0 < a" and b: "0 < b" and k: "0 < k" "k \<le> 2 ^ 53" and le: "a \<le> k * b"
  shows "round_double a b \<le> real_of_int k"
proof -
  define q where "q = real_of_int a / real_of_int b"
  have "real_of_int a \<le> real_of_int (k * b)" using le by (simp only: of_int_le_iff)
  then have qk: "q \<le> real_of_int k" using b by (simp add: q_def pos_divide_le_eq)
  have k53: "real_of_int k \<le> 2 ^ 53"
  proof -
    have "real_of_int k \<le> real_of_int (2 ^ 53)" using k(2) by (simp only: of_int_le_iff)
    then show ?thesis by simp
  qed
  have e53: "float_exp a b \<le> 53"
  proof (rule ccontr)
    assume "\<not> float_exp a b \<le> 53"
    then have "54 \<le> float_exp a b" by simp
    then have "(2::real) powi 54 \<le> 2 powi float_exp a b"
      by (rule power_int_increasing) simp
    with float_exp_bounds(1)[OF a b] have "2 ^ 54 \<le> q" by (simp add: q_def)
    with qk k53 show False by simp
  qed
  have "\<exists>j. real_of_int k = real_of_int j * float_ulp a b"
  proof (cases "float_exp a b \<le> 52")
    case True
    then have "max (float_exp a b) (- 1022) \<le> 52" by simp
    then show ?thesis by (rule int_multiple_of_ulp)
  next
    case False
    with e53 have e: "float_exp a b = 53" by simp
    have "2 ^ 53 \<le> q" using float_exp_bounds(1)[OF a b] by (simp add: q_def e)
    with qk k53 have "real_of_int k = 2 ^ 53" by simp
    moreover have "float_ulp a b = 2" by (simp add: float_ulp_def e)
    ultimately have "real_of_int k = real_of_int (2 ^ 52) * float_ulp a b" by simp
    then show ?thesis by blast
  qed
  then obtain j where j: "real_of_int k = real_of_int j * float_ulp a b" by blast
  from qk have "real_of_int a / real_of_int b \<le> real_of_int j * float_ulp a b"
    by (simp add: j q_def)
  then show ?thesis unfolding j by (rule round_double_mult_ulp_le)
qed

lemma py_truediv_pos_denominator:
  assumes "0 < b"
  shows "py_truediv a b =
     (if a = 0 then Inr 0
      else if 2 powi 1024 \<le> round_double \<bar>a\<bar> b then Inl OverflowError
      else Inr (if a < 0 then - round_double \<bar>a\<bar> b else round_double \<bar>a\<bar> b))"
  using assms by (auto simp: py_truediv_def Let_def)



lemma py_truediv_mono:
  assumes "0 \<le> a1" "a1 \<le> a2" "0 < b" "py_truediv a1 b = Inr v1" "py_truediv a2 b = Inr v2"
  shows "v1 \<le> v2"
proof (cases "a1 = 0")
  case True
  with assms(3,4) have v1: "v1 = 0" by (simp add: py_truediv_pos_denominator)
  show ?thesis
  proof (cases "a2 = 0")
    case True
    with assms(3,5) show ?thesis by (simp add: py_truediv_pos_denominator v1)
  next
    case False
    with assms(1,2) have a2: "0 < a2" by simp
    with assms(3,5) have "v2 = round_double a2 b"
      by (simp add: py_truediv_pos_denominator split: if_splits)
    with round_double_nonneg[OF a2 assms(3)] show ?thesis by (simp add: v1)
  qed
next
  case False
  with assms(1) have a1: "0 < a1" by simp
  with assms(2) have a2: "0 < a2" by simp
  from a1 assms(3,4) have "v1 = round_double a1 b"
    by (simp add: py_truediv_pos_denominator split: if_splits)
  moreover from a2 assms(3,5) have "v2 = round_double a2 b"
    by (simp add: py_truediv_pos_denominator split: if_splits)
  ultimately show ?thesis using round_double_mono[OF a1 assms(2,3)] by simp
qed

lemma py_truediv_fraction:
  assumes "0 \<le> a" "a \<le> b" "0 < b"
  shows "\<exists>v. py_truediv a b = Inr v \<and> 0 \<le> v \<and> v \<le> 1"
proof (cases "a = 0")
  case True
  with assms(3) show ?thesis by (simp add: py_truediv_pos_denominator)
next
  case False
  with assms(1) have a: "0 < a" by simp
  have "round_double a b \<le> real_of_int 1"
    using assms(2) by (intro round_double_int_upper[OF a assms(3)]) simp_all
  then have le1: "round_double a b \<le> 1" by simp
  have "(1::real) < 2 powi 1024" by simp
  with le1 have "\<not> 2 powi 1024 \<le> round_double a b" by linarith
  with a assms(3) le1 round_double_nonneg[OF a assms(3)] show ?thesis
    by (simp add: py_truediv_pos_denominator)
qed

section \<open>The driver\<close>

lemma sim_loop_counts:
  "tlb_inv t \<Longrightarrow>
   \<exists>t' h' tot' out'. sim_loop p sp n step i trace (t, h, tot, out) = Inr (t', h', tot', out') \<and>
      tlb_inv t' \<and> sets t' = sets t \<and> ways t' = ways t \<and>
      h \<le> h' \<and> h' \<le> h + int (length trace) \<and>
      tot' = tot + (h' - h) * (p_t_tlb p + p_t_mem p)
                 + (int (length trace) - (h' - h)) * (p_t_tlb p + p_t_pagewalk p + p_t_mem p)"
proof (induction trace arbitrary: t h tot out i)
  case Nil
  then show ?case by simp
next
  case (Cons r rest)
  obtain vpn off where r: "r = (vpn, off)" by (cases r)
  from access_eq(2)[OF Cons.prems, of vpn] obtain hit t1 where a: "access t vpn = Inr (hit, t1)"
    by blast
  from access_preserves[OF Cons.prems a]
  have 1: "tlb_inv t1" "sets t1 = sets t" "ways t1 = ways t" by simp_all
  define h1 where "h1 = (if hit then h + 1 else h)"
  define tot1 where "tot1 = (if hit then tot + (p_t_tlb p + p_t_mem p)
                     else tot + (p_t_tlb p + p_t_pagewalk p + p_t_mem p))"
  define out1 where "out1 = (if sp \<and> (i mod step = 0 \<or> i = n)
                   then out @ [progress_line i n] else out)"
  have unf: "sim_loop p sp n step i (r # rest) (t, h, tot, out)
               = sim_loop p sp n step (i + 1) rest (t1, h1, tot1, out1)"
    by (simp add: r a bind_err_def h1_def tot1_def out1_def)
  from Cons.IH[OF 1(1), of "i + 1" h1 tot1 out1] obtain t' h' tot' out' where
    IH: "sim_loop p sp n step (i + 1) rest (t1, h1, tot1, out1) = Inr (t', h', tot', out')"
      "tlb_inv t'" "sets t' = sets t1" "ways t' = ways t1" "h1 \<le> h'" "h' \<le> h1 + int (length rest)"
      "tot' = tot1 + (h' - h1) * (p_t_tlb p + p_t_mem p)
                 + (int (length rest) - (h' - h1)) * (p_t_tlb p + p_t_pagewalk p + p_t_mem p)"
    by blast
  have "h \<le> h'" "h' \<le> h + int (length (r # rest))" using IH(5,6) by (auto simp: h1_def split: if_splits)
  moreover have "tot' = tot + (h' - h) * (p_t_tlb p + p_t_mem p)
                 + (int (length (r # rest)) - (h' - h)) * (p_t_tlb p + p_t_pagewalk p + p_t_mem p)"
    unfolding IH(7) by (cases hit) (simp_all add: h1_def tot1_def algebra_simps)
  ultimately show ?case unfolding unf using IH(1-4) 1 by simp
qed

lemma sim_loop_progress:
  "(case sim_loop p True n step i trace (t, h, tot, out1) of
      Inl e \<Rightarrow> Inl e | Inr (t', h', tot', out') \<Rightarrow> Inr (t', h', tot'))
   = (case sim_loop p False n step i trace (t, h, tot, out2) of
      Inl e \<Rightarrow> Inl e | Inr (t', h', tot', out') \<Rightarrow> Inr (t', h', tot'))"
proof (induction trace arbitrary: t h tot out1 out2 i)
  case Nil
  then show ?case by simp
next
  case (Cons r rest)
  obtain vpn off where r: "r = (vpn, off)" by (cases r)
  show ?case
  proof (cases "access t vpn")
    case (Inl e)
    then show ?thesis by (simp add: r bind_err_def)
  next
    case (Inr x)
    obtain hit t1 where "x = (hit, t1)" by (cases x)
    with Inr show ?thesis
      by (auto simp: r bind_err_def Let_def intro!: Cons.IH)
  qed
qed

lemma py_truediv_zero: "py_truediv a 0 = Inl ZeroDivisionError"
  by (simp add: py_truediv_def)

lemma run_tlb_sim_cases:
  assumes "run_tlb_sim R g0 p sp = Inr (r, out, g)"
  obtains t trace t1 h tot out0 hr em where
    "init_tlb (p_sets p) (p_ways p) = Inr t"
    "generate_trace R g0 (p_n_accesses p) (p_vpages p) (p_page_size p)
       (p_locality_prob p) (p_locality_window p) (p_seed p) = Inr (trace, g)"
    "sim_loop p sp (int (length trace)) (max 1 (int (length trace) div 50)) 1 trace (t, 0, 0, [])
       = Inr (t1, h, tot, out0)"
    "trace \<noteq> []"
    "py_truediv h (int (length trace)) = Inr hr"
    "py_truediv tot (int (length trace)) = Inr em"
    "r = \<lparr>accesses = int (length trace), hits = h, misses = int (length trace) - h,
          hit_rate = hr, EMAT = em, params = p\<rparr>"
proof -
  from assms obtain t trace t1 h tot out0 hr em where
    1: "init_tlb (p_sets p) (p_ways p) = Inr t"
    "generate_trace R g0 (p_n_accesses p) (p_vpages p) (p_page_size p)
       (p_locality_prob p) (p_locality_window p) (p_seed p) = Inr (trace, g)"
    "sim_loop p sp (int (length trace)) (max 1 (int (length trace) div 50)) 1 trace (t, 0, 0, [])
       = Inr (t1, h, tot, out0)"
    "py_truediv h (int (length trace)) = Inr hr"
    "py_truediv tot (int (length trace)) = Inr em"
    "r = \<lparr>accesses = int (length trace), hits = h, misses = int (length trace) - h,
          hit_rate = hr, EMAT = em, params = p\<rparr>"
    by (auto simp: run_tlb_sim_def bind_err_def Let_def split: sum.splits prod.splits)
  from 1(4) have "trace \<noteq> []" by (auto simp: py_truediv_zero)
  with 1 that show thesis by blast
qed

lemma sim_loop_total_bounds:
  assumes inv: "tlb_inv t"
    and l: "sim_loop p sp n step i trace (t, 0, 0, []) = Inr (t1, h, tot, out0)"
  shows "0 \<le> h" and "h \<le> int (length trace)"
    and "int (length trace) * min (p_t_tlb p + p_t_mem p) (p_t_tlb p + p_t_pagewalk p + p_t_mem p) \<le> tot"
    and "tot \<le> int (length trace) * max (p_t_tlb p + p_t_mem p) (p_t_tlb p + p_t_pagewalk p + p_t_mem p)"
proof -
  define m where "m = int (length trace)"
  define A where "A = p_t_tlb p + p_t_mem p"
  define B where "B = p_t_tlb p + p_t_pagewalk p + p_t_mem p"
  from sim_loop_counts[OF inv, of p sp n step i trace 0 0 "[]"] l
  have h: "0 \<le> h" "h \<le> m" and tot: "tot = h * A + (m - h) * B"
    by (auto simp: m_def A_def B_def)
  show "0 \<le> h" "h \<le> int (length trace)" using h by (simp_all add: m_def)
  have "h * min A B \<le> h * A" "(m - h) * min A B \<le> (m - h) * B"
    using h by (simp_all add: mult_left_mono)
  then have "h * min A B + (m - h) * min A B \<le> tot" unfolding tot by linarith
  then show "int (length trace) * min (p_t_tlb p + p_t_mem p) (p_t_tlb p + p_t_pagewalk p + p_t_mem p) \<le> tot"
    by (simp add: algebra_simps m_def A_def B_def)
  have "h * A \<le> h * max A B" "(m - h) * B \<le> (m - h) * max A B"
    using h by (simp_all add: mult_left_mono)
  then have "tot \<le> h * max A B + (m - h) * max A B" unfolding tot by linarith
  then show "tot \<le> int (length trace) * max (p_t_tlb p + p_t_mem p) (p_t_tlb p + p_t_pagewalk p + p_t_mem p)"
    by (simp add: algebra_simps m_def A_def B_def)
qed

text \<open>A division whose exact quotient is at most \<open>2 ^ 53\<close> in absolute value does
  not overflow.\<close>

lemma py_truediv_returns:
  assumes b: "0 < b" and le: "- (2 ^ 53 * b) \<le> a" "a \<le> 2 ^ 53 * b"
  shows "\<exists>v. py_truediv a b = Inr v"
proof (cases "a = 0")
  case True
  with b show ?thesis by (simp add: py_truediv_pos_denominator)
next
  case False
  then have pos: "0 < \<bar>a\<bar>" by simp
  have "\<bar>a\<bar> \<le> 2 ^ 53 * b" using le by (simp add: abs_le_iff)
  then have "round_double \<bar>a\<bar> b \<le> real_of_int (2 ^ 53)"
    by (intro round_double_int_upper[OF pos b]) simp_all
  moreover have "real_of_int (2 ^ 53) < 2 powi 1024" by simp
  ultimately have "\<not> 2 powi 1024 \<le> round_double \<bar>a\<bar> b" by linarith
  with False b show ?thesis by (simp add: py_truediv_pos_denominator)
qed

lemma run_tlb_sim_returns:
  assumes "0 < p_sets p" "p_sets p = 2 ^ k" "0 < p_ways p" "0 < p_vpages p" "0 < p_page_size p"
    "0 \<le> p_locality_window p" "1 \<le> p_n_accesses p"
    and A: "\<bar>p_t_tlb p + p_t_mem p\<bar> \<le> 2 ^ 53"
    and B: "\<bar>p_t_tlb p + p_t_pagewalk p + p_t_mem p\<bar> \<le> 2 ^ 53"
  shows "\<exists>r out g. run_tlb_sim R g0 p sp = Inr (r, out, g)"
proof -
  have "p_sets p AND (p_sets p - 1) = 0"
    unfolding assms(2) by (rule pow2_and_pred)
  then have "\<exists>t. init_tlb (p_sets p) (p_ways p) = Inr t"
    using assms(1,3) by (simp add: init_tlb_def Let_def)
  then obtain t where i: "init_tlb (p_sets p) (p_ways p) = Inr t" by blast
  from randrange_returns[OF assms(4), of R "rng_seed R (p_seed p)"] obtain c gs where
    c: "randrange R (p_vpages p) (rng_seed R (p_seed p)) = Inr (c, gs)" by blast
  from trace_loop_returns[OF assms(4,5,6), of R "p_locality_prob p" "nat (p_n_accesses p)" c gs "[]"]
  obtain tr g where g: "generate_trace R g0 (p_n_accesses p) (p_vpages p) (p_page_size p)
       (p_locality_prob p) (p_locality_window p) (p_seed p) = Inr (tr, g)"
    by (auto simp: generate_trace_def c bind_err_def Let_def)
  define n where "n = int (length tr)"
  from generate_trace_length[OF g] assms(7) have npos: "0 < n" by (simp add: n_def)
  from init_tlb_inv[OF i] have inv: "tlb_inv t" by simp
  from sim_loop_counts[OF inv, of p sp n "max 1 (n div 50)" 1 tr 0 0 "[]"]
  obtain t' h' tot' out' where
    l: "sim_loop p sp n (max 1 (n div 50)) 1 tr (t, 0, 0, []) = Inr (t', h', tot', out')"
    by blast
  from sim_loop_total_bounds[OF inv l]
  have h: "0 \<le> h'" "h' \<le> n"
    and lo: "n * min (p_t_tlb p + p_t_mem p) (p_t_tlb p + p_t_pagewalk p + p_t_mem p) \<le> tot'"
    and hi: "tot' \<le> n * max (p_t_tlb p + p_t_mem p) (p_t_tlb p + p_t_pagewalk p + p_t_mem p)"
    by (simp_all add: n_def)
  from py_truediv_fraction[OF h npos] obtain hr where hr: "py_truediv h' n = Inr hr" by blast
  have "n * (- (2 ^ 53)) \<le> n * min (p_t_tlb p + p_t_mem p) (p_t_tlb p + p_t_pagewalk p + p_t_mem p)"
    using A B npos by (intro mult_left_mono) (simp_all add: abs_le_iff)
  moreover have "n * max (p_t_tlb p + p_t_mem p) (p_t_tlb p + p_t_pagewalk p + p_t_mem p) \<le> n * 2 ^ 53"
    using A B npos by (intro mult_left_mono) (simp_all add: abs_le_iff)
  ultimately have "- (2 ^ 53 * n) \<le> tot'" "tot' \<le> 2 ^ 53 * n"
    using lo hi by (simp_all add: mult.commute)
  from py_truediv_returns[OF npos this] obtain em where em: "py_truediv tot' n = Inr em" by blast
  from i g l hr em show ?thesis
    by (simp add: run_tlb_sim_def bind_err_def Let_def n_def)
qed

lemma truediv_1_6: "py_truediv 1 6 = Inr (6004799503160661 / 36028797018963968)"
  by (simp add: py_truediv_def round_double_def float_exp_def round_half_even_def Let_def
      compute_bitlen)

lemma truediv_2_6: "py_truediv 2 6 = Inr (6004799503160661 / 18014398509481984)"
  by (simp add: py_truediv_def round_double_def float_exp_def round_half_even_def Let_def
      compute_bitlen)

lemma truediv_2106_6: "py_truediv 2106 6 = Inr 351"
  by (simp add: py_truediv_def round_double_def float_exp_def round_half_even_def Let_def
      compute_bitlen)

lemma truediv_1806_6: "py_truediv 1806 6 = Inr 301"
  by (simp add: py_truediv_def round_double_def float_exp_def round_half_even_def Let_def
      compute_bitlen)


lemma sample_run:
  "run_tlb_sim counter_rng g0 sample_params False
     = Inr (\<lparr>accesses = 6, hits = 1, misses = 5,
             hit_rate = 6004799503160661 / 36028797018963968, EMAT = 351,
             params = sample_params\<rparr>, [], 19)"
  by (simp add: run_tlb_sim_def sample_params_def sample_trace init_tlb_def access_def
      index_tlb_def py_pos_def bind_err_def deque_appendleft_def deque_pop_def Let_def
      truediv_1_6 truediv_2106_6)

lemma sample_run_progress:
  "run_tlb_sim counter_rng g0 sample_params True
     = Inr (\<lparr>accesses = 6, hits = 1, misses = 5,
             hit_rate = 6004799503160661 / 36028797018963968, EMAT = 351,
             params = sample_params\<rparr>,
            [Progress 6 16, Progress 13 33, Progress 20 50, Progress 26 66, Progress 33 83,
             Progress 40 100, Newline], 19)"
  by (simp add: run_tlb_sim_def sample_params_def sample_trace init_tlb_def access_def
      index_tlb_def py_pos_def bind_err_def deque_appendleft_def deque_pop_def Let_def
      progress_line_def truediv_1_6 truediv_2106_6)

lemma sample_run_two_ways:
  "run_tlb_sim counter_rng g0 (sample_params\<lparr>p_ways := 2\<rparr>) False
     = Inr (\<lparr>accesses = 6, hits = 2, misses = 4,
             hit_rate = 6004799503160661 / 18014398509481984, EMAT = 301,
             params = sample_params\<lparr>p_ways := 2\<rparr>\<rparr>, [], 19)"
  by (simp add: run_tlb_sim_def sample_params_def sample_trace init_tlb_def access_def
      index_tlb_def py_pos_def bind_err_def deque_appendleft_def deque_pop_def Let_def
      truediv_2_6 truediv_1806_6)


text \<open>
  Claim C10.  Every result the driver returns has \<open>hits + misses = accesses\<close>;
  \<open>accesses\<close> is the length of the generated trace and equals \<open>n_accesses\<close> (which
  is then at least 1); \<open>hits\<close> is between 0 and \<open>accesses\<close>; and \<open>hit_rate\<close> is
  \<open>hits\<close> divided by \<open>accesses\<close>, the float this division returns, which lies
  between 0 and 1.
\<close>

theorem conservation:
  assumes "run_tlb_sim R g0 p sp = Inr (r, out, g)"
  shows "hits r + misses r = accesses r \<and> accesses r = p_n_accesses p \<and> 1 \<le> accesses r \<and>
         0 \<le> hits r \<and> hits r \<le> accesses r \<and>
         py_truediv (hits r) (accesses r) = Inr (hit_rate r) \<and>
         0 \<le> hit_rate r \<and> hit_rate r \<le> 1 \<and>
         (\<exists>trace. generate_trace R g0 (p_n_accesses p) (p_vpages p) (p_page_size p)
             (p_locality_prob p) (p_locality_window p) (p_seed p) = Inr (trace, g) \<and>
            accesses r = int (length trace))"
proof -
  from assms obtain t trace t1 h tot out0 hr em where
    i: "init_tlb (p_sets p) (p_ways p) = Inr t" and
    g: "generate_trace R g0 (p_n_accesses p) (p_vpages p) (p_page_size p)
       (p_locality_prob p) (p_locality_window p) (p_seed p) = Inr (trace, g)" and
    l: "sim_loop p sp (int (length trace)) (max 1 (int (length trace) div 50)) 1 trace (t, 0, 0, [])
       = Inr (t1, h, tot, out0)" and
    ne: "trace \<noteq> []" and
    hr: "py_truediv h (int (length trace)) = Inr hr" and
    r: "r = \<lparr>accesses = int (length trace), hits = h, misses = int (length trace) - h,
          hit_rate = hr, EMAT = em, params = p\<rparr>"
    by (rule run_tlb_sim_cases)
  from init_tlb_inv[OF i] have inv: "tlb_inv t" by simp
  from sim_loop_total_bounds(1,2)[OF inv l]
  have h: "0 \<le> h" "h \<le> int (length trace)" .
  from generate_trace_length[OF g] ne have n: "int (length trace) = p_n_accesses p" "1 \<le> int (length trace)"
    by (cases trace; simp; linarith)+
  from ne have npos: "0 < int (length trace)" by simp
  from py_truediv_fraction[OF h npos] hr have "0 \<le> hr" "hr \<le> 1" by auto
  then show ?thesis using h n g hr by (simp add: r)
qed

theorem conservation_witness:
  "run_tlb_sim counter_rng 0 sample_params False
     = Inr (\<lparr>accesses = 6, hits = 1, misses = 5,
             hit_rate = 6004799503160661 / 36028797018963968, EMAT = 351,
             params = sample_params\<rparr>, [], 19) \<and>
   (1::int) + 5 = 6 \<and> (6::int) = p_n_accesses sample_params \<and>
   py_truediv 1 6 = Inr (6004799503160661 / 36028797018963968)"
  using conservation[OF sample_run[of 0]] sample_run[of 0] by (simp add: sample_params_def)




text \<open>
  Claim C8.  With the progress display on, the driver returns the same result record
  (and leaves the same generator state), or raises the same error, as with the display
  off; only the terminal output differs.
\<close>

theorem progress_is_display_only:
  "(case run_tlb_sim R g0 p True of Inl e \<Rightarrow> Inl e | Inr (r, out, g) \<Rightarrow> Inr (r, g))
   = (case run_tlb_sim R g0 p False of Inl e \<Rightarrow> Inl e | Inr (r, out, g) \<Rightarrow> Inr (r, g))"
proof (cases "init_tlb (p_sets p) (p_ways p)")
  case (Inl e)
  then show ?thesis by (simp add: run_tlb_sim_def bind_err_def)
next
  case (Inr t)
  show ?thesis
  proof (cases "generate_trace R g0 (p_n_accesses p) (p_vpages p) (p_page_size p)
                 (p_locality_prob p) (p_locality_window p) (p_seed p)")
    case (Inl e)
    with Inr show ?thesis by (simp add: run_tlb_sim_def bind_err_def)
  next
    case (Inr x)
    obtain trace g1 where x: "x = (trace, g1)" by (cases x)
    from sim_loop_progress[of p "int (length trace)" "max 1 (int (length trace) div 50)" 1 trace t 0 0 "[]" "[]"]
    show ?thesis using \<open>init_tlb (p_sets p) (p_ways p) = Inr t\<close> Inr x
      by (auto simp: run_tlb_sim_def bind_err_def Let_def split: sum.splits prod.splits)
  qed
qed

text \<open>
  Claim C7.  \<open>generate_trace\<close> and the driver do not depend on the state the
  generator is in when they are called, because \<open>generate_trace\<close> seeds it first: for
  the same seed and the same other parameters, two invocations, whatever happened in
  between, return the same trace and the same result record, terminal output and final
  generator state (or raise the same error).
\<close>

theorem deterministic:
  "generate_trace R g1 n vp ps lp lw sd = generate_trace R g2 n vp ps lp lw sd \<and>
   run_tlb_sim R g1 p sp = run_tlb_sim R g2 p sp"
  by (simp add: generate_trace_def run_tlb_sim_def)

section \<open>Associativity\<close>

lemma take_remove1_in:
  "v \<in> set (take n b) \<Longrightarrow> remove1 v (take n b) = take (n - 1) (remove1 v b)"
proof (induction b arbitrary: n)
  case Nil
  then show ?case by simp
next
  case (Cons x xs)
  then show ?case
    by (cases n) (auto simp: take_Cons' dest: in_set_takeD)
qed

lemma take_remove1_notin:
  "v \<notin> set (take n b) \<Longrightarrow> take n (remove1 v b) = take n b"
proof (induction b arbitrary: n)
  case Nil
  then show ?case by simp
next
  case (Cons x xs)
  then show ?case by (cases n) auto
qed

lemma lru_inclusion_step:
  assumes d: "distinct b2" and l2: "int (length b2) \<le> w2" and w1: "0 < w1" and le: "w1 \<le> w2"
  shows "lru_new w1 v (take (nat w1) b2) = take (nat w1) (lru_new w2 v b2)"
proof -
  define n where "n = nat w1"
  have n: "0 < n" "int n = w1" using w1 by (simp_all add: n_def)
  obtain m where m: "n = Suc m" using n(1) by (cases n) auto
  consider (hit1) "v \<in> set (take n b2)"
    | (hit2) "v \<notin> set (take n b2)" "v \<in> set b2"
    | (miss) "v \<notin> set b2" by blast
  then have "lru_new w1 v (take n b2) = take n (lru_new w2 v b2)"
  proof cases
    case hit1
    then have "v \<in> set b2" by (rule in_set_takeD)
    with hit1 show ?thesis
      by (simp add: lru_new_def take_remove1_in m)
  next
    case hit2
    have len: "n < length b2"
    proof (rule ccontr)
      assume "\<not> n < length b2"
      then have "take n b2 = b2" by simp
      with hit2 show False by simp
    qed
    then have full: "int (length (take n b2)) = w1" using n by simp
    have "butlast (take n b2) = take m b2"
      using len by (simp add: butlast_take m)
    moreover have "take m (remove1 v b2) = take m b2"
    proof (rule take_remove1_notin)
      show "v \<notin> set (take m b2)"
        using hit2(1) set_take_subset_set_take[of m n b2] by (auto simp: m)
    qed
    ultimately show ?thesis using hit2 full
      by (simp add: lru_new_def m)
  next
    case miss
    then have nin: "v \<notin> set (take n b2)" by (auto dest: in_set_takeD)
    show ?thesis
    proof (cases "n \<le> length b2")
      case True
      then have full: "int (length (take n b2)) = w1" using n by simp
      have bt: "butlast (take n b2) = take m b2"
        using True by (simp add: butlast_take m)
      have "take m (butlast b2) = take m b2"
        using True by (simp add: take_butlast m)
      with miss nin full bt show ?thesis
        by (simp add: lru_new_def m)
    next
      case False
      then have tk: "take n b2 = b2" and lt: "int (length b2) < w1" using n by simp_all
      have "int (length b2) \<noteq> w2" using lt le by simp
      moreover have "take m b2 = b2" using False by (simp add: m)
      ultimately show ?thesis using miss lt
        by (simp add: lru_new_def tk m)
    qed
  qed
  then show ?thesis by (simp add: n_def)
qed

lemma access_lru_new:
  assumes "tlb_inv t"
  shows "access t vpn = Inr (vpn \<in> set (buckets t ! nat (vpn AND (sets t - 1))),
          t\<lparr>buckets := (buckets t)[nat (vpn AND (sets t - 1)) :=
             lru_new (ways t) vpn (buckets t ! nat (vpn AND (sets t - 1)))]\<rparr>)"
  using access_eq(2)[OF assms, of vpn] by (simp add: lru_new_def)

lemma access_lru_incl:
  assumes i1: "tlb_inv t1" and i2: "tlb_inv t2" and rel: "lru_incl t1 t2"
    and a1: "access t1 vpn = Inr (h1, t1')" and a2: "access t2 vpn = Inr (h2, t2')"
  shows "(h1 \<longrightarrow> h2) \<and> lru_incl t1' t2'"
proof -
  define j where "j = nat (vpn AND (sets t2 - 1))"
  define b2 where "b2 = buckets t2 ! j"
  from rel have s: "sets t1 = sets t2" and le: "ways t1 \<le> ways t2"
    and bs: "buckets t1 = map (take (nat (ways t1))) (buckets t2)"
    by (simp_all add: lru_incl_def)
  from access_eq(1)[OF i2, of vpn] have jl: "j < length (buckets t2)" by (simp add: j_def)
  then have b1: "buckets t1 ! j = take (nat (ways t1)) b2" by (simp add: bs b2_def)
  have "b2 \<in> set (buckets t2)" using jl by (simp add: b2_def)
  with i2 have d: "distinct b2" and l2: "int (length b2) \<le> ways t2"
    by (simp_all add: tlb_inv_def list_all_iff)
  from i1 have w1: "0 < ways t1" by (simp add: tlb_inv_def)
  from access_lru_new[OF i1, of vpn] a1
  have h1: "h1 = (vpn \<in> set (take (nat (ways t1)) b2))"
    and t1': "t1' = t1\<lparr>buckets := (buckets t1)[j := lru_new (ways t1) vpn (take (nat (ways t1)) b2)]\<rparr>"
    by (simp_all add: s j_def [symmetric] b1)
  from access_lru_new[OF i2, of vpn] a2
  have h2: "h2 = (vpn \<in> set b2)"
    and t2': "t2' = t2\<lparr>buckets := (buckets t2)[j := lru_new (ways t2) vpn b2]\<rparr>"
    by (simp_all add: j_def [symmetric] b2_def [symmetric])
  have "h1 \<longrightarrow> h2" unfolding h1 h2 by (auto dest: in_set_takeD)
  moreover have "lru_incl t1' t2'"
    unfolding lru_incl_def t1' t2'
    using s le bs lru_inclusion_step[OF d l2 w1 le, of vpn]
    by (simp add: map_update)
  ultimately show ?thesis by simp
qed

lemma sim_loop_lru_incl:
  assumes "tlb_inv t1" "tlb_inv t2" "lru_incl t1 t2" "h1 \<le> h2"
    and "sim_loop p1 sp1 n1 step1 i1 trace (t1, h1, tot1, out1) = Inr (t1', h1', tot1', out1')"
    and "sim_loop p2 sp2 n2 step2 i2 trace (t2, h2, tot2, out2) = Inr (t2', h2', tot2', out2')"
  shows "h1' \<le> h2'"
  using assms
proof (induction trace arbitrary: t1 t2 h1 h2 tot1 tot2 out1 out2 i1 i2)
  case Nil
  then show ?case by simp
next
  case (Cons r rest)
  obtain vpn off where r: "r = (vpn, off)" by (cases r)
  from access_eq(2)[OF Cons.prems(1), of vpn] obtain a1 u1 where a1: "access t1 vpn = Inr (a1, u1)"
    by blast
  from access_eq(2)[OF Cons.prems(2), of vpn] obtain a2 u2 where a2: "access t2 vpn = Inr (a2, u2)"
    by blast
  from access_preserves[OF Cons.prems(1) a1] access_preserves[OF Cons.prems(2) a2]
  have inv: "tlb_inv u1" "tlb_inv u2" by simp_all
  from access_lru_incl[OF Cons.prems(1,2,3) a1 a2] have imp: "a1 \<longrightarrow> a2" and rel: "lru_incl u1 u2"
    by simp_all
  have hh: "(if a1 then h1 + 1 else h1) \<le> (if a2 then h2 + 1 else h2)"
    using imp Cons.prems(4) by auto
  show ?case
    using Cons.prems(5,6)
    by (simp add: r a1 a2 bind_err_def Let_def)
       (erule (1) Cons.IH[OF inv rel hh])
qed

lemma init_lru_incl:
  assumes "init_tlb s w1 = Inr t1" "init_tlb s w2 = Inr t2" "w1 \<le> w2"
  shows "lru_incl t1 t2"
  using assms
  by (auto simp: init_tlb_def lru_incl_def Let_def map_replicate split: if_splits)

text \<open>
  Claim C9.  Two runs of the driver that differ only in \<open>ways\<close>, the second with at
  least as many ways as the first, and that both return a result: the second has at
  least as many hits and at least as high a hit rate.
\<close>

theorem more_ways_never_fewer_hits:
  assumes r1: "run_tlb_sim R g0 p sp1 = Inr (r1, out1, g1)"
    and r2: "run_tlb_sim R g0' (p\<lparr>p_ways := w2\<rparr>) sp2 = Inr (r2, out2, g2)"
    and le: "p_ways p \<le> w2"
  shows "hits r1 \<le> hits r2 \<and> hit_rate r1 \<le> hit_rate r2"
proof -
  let ?q = "p\<lparr>p_ways := w2\<rparr>"
  from r1 obtain t1 tr1 u1 h1 tot1 o1 hr1 em1 where
    i1: "init_tlb (p_sets p) (p_ways p) = Inr t1" and
    g1: "generate_trace R g0 (p_n_accesses p) (p_vpages p) (p_page_size p)
       (p_locality_prob p) (p_locality_window p) (p_seed p) = Inr (tr1, g1)" and
    l1: "sim_loop p sp1 (int (length tr1)) (max 1 (int (length tr1) div 50)) 1 tr1 (t1, 0, 0, [])
       = Inr (u1, h1, tot1, o1)" and
    ne: "tr1 \<noteq> []" and
    d1: "py_truediv h1 (int (length tr1)) = Inr hr1" and
    e1: "r1 = \<lparr>accesses = int (length tr1), hits = h1, misses = int (length tr1) - h1,
          hit_rate = hr1, EMAT = em1, params = p\<rparr>"
    by (rule run_tlb_sim_cases)
  from r2 obtain t2 tr2 u2 h2 tot2 o2 hr2 em2 where
    i2: "init_tlb (p_sets ?q) (p_ways ?q) = Inr t2" and
    g2: "generate_trace R g0' (p_n_accesses ?q) (p_vpages ?q) (p_page_size ?q)
       (p_locality_prob ?q) (p_locality_window ?q) (p_seed ?q) = Inr (tr2, g2)" and
    l2: "sim_loop ?q sp2 (int (length tr2)) (max 1 (int (length tr2) div 50)) 1 tr2 (t2, 0, 0, [])
       = Inr (u2, h2, tot2, o2)" and
    d2: "py_truediv h2 (int (length tr2)) = Inr hr2" and
    e2: "r2 = \<lparr>accesses = int (length tr2), hits = h2, misses = int (length tr2) - h2,
          hit_rate = hr2, EMAT = em2, params = ?q\<rparr>"
    by (rule run_tlb_sim_cases)
  from g1 g2 have tr: "tr2 = tr1" by (simp add: generate_trace_def)
  from i2 have i2': "init_tlb (p_sets p) w2 = Inr t2" by simp
  from init_tlb_inv[OF i1] init_tlb_inv[OF i2'] have inv: "tlb_inv t1" "tlb_inv t2" by simp_all
  from init_lru_incl[OF i1 i2' le] have rel: "lru_incl t1 t2" .
  from sim_loop_lru_incl[OF inv rel _ l1 l2[unfolded tr]] have h: "h1 \<le> h2" by simp
  from sim_loop_total_bounds(1)[OF inv(1) l1] have h0: "0 \<le> h1" .
  from ne have npos: "0 < int (length tr1)" by simp
  from py_truediv_mono[OF h0 h npos d1 d2[unfolded tr]] have "hr1 \<le> hr2" .
  with h show ?thesis by (simp add: e1 e2)
qed

theorem more_ways_never_fewer_hits_witness:
  "run_tlb_sim counter_rng 0 sample_params False
     = Inr (\<lparr>accesses = 6, hits = 1, misses = 5,
             hit_rate = 6004799503160661 / 36028797018963968, EMAT = 351,
             params = sample_params\<rparr>, [], 19) \<and>
   run_tlb_sim counter_rng 0 (sample_params\<lparr>p_ways := 2\<rparr>) False
     = Inr (\<lparr>accesses = 6, hits = 2, misses = 4,
             hit_rate = 6004799503160661 / 18014398509481984, EMAT = 301,
             params = sample_params\<lparr>p_ways := 2\<rparr>\<rparr>, [], 19) \<and>
   p_ways sample_params \<le> 2 \<and> (1::int) \<le> 2 \<and>
   (6004799503160661 / 36028797018963968 :: real) \<le> 6004799503160661 / 18014398509481984"
  using more_ways_never_fewer_hits[OF sample_run[of 0] sample_run_two_ways[of 0]]
    sample_run[of 0] sample_run_two_ways[of 0]
  by (simp add: sample_params_def)

end
